theory Spec2Isabelle
  imports Main "HOL-Library.Word" "HOL-Library.Sublist" "HOL-Library.Multiset"
begin

section \<open>Data model\<close>

text \<open>
  A JavaScript string is a sequence of UTF-16 code units; \<open>includes\<close>,
  \<open>substring\<close> and \<open>length\<close> all count code units.
\<close>

type_synonym jsstring = "16 word list"

text \<open>
  An item of \<open>feed.items\<close> as the RSS parser delivers it. Every field may be
  absent (\<open>undefined\<close>, here \<open>None\<close>). \<open>isoDate\<close> is only set by the parser
  when the publication date could be parsed, so it is modelled by the value
  \<open>new Date(item.isoDate).getTime()\<close> in milliseconds; an absent \<open>isoDate\<close>
  makes \<open>new Date(undefined)\<close> an invalid date, whose arithmetic gives NaN.
\<close>

record feed_item =
  title :: "jsstring option"
  link :: "jsstring option"
  isoDate :: "int option"
  contentSnippet :: "jsstring option"

text \<open>
  An item that passed the filter of \<open>index.js\<close>: its title and link are
  non-empty strings, which the type records. The other two fields stay
  optional, because the filter does not look at them.
\<close>

record valid_item =
  item_title :: jsstring
  item_link :: jsstring
  item_isoDate :: "int option"
  item_contentSnippet :: "jsstring option"

text \<open>
  The parsed content of \<open>state.json\<close>. \<open>history\<close> is \<open>Some\<close> exactly when
  \<open>Array.isArray(state.history)\<close>; \<open>last_time\<close>, when present, is the parsed
  date that the timestamp variant of the script wrote there.
\<close>

record state_json =
  history :: "jsstring list option"
  last_link :: "jsstring option"
  last_time :: "int option"

text \<open>
  The state file: \<open>Missing\<close> when \<open>fs.existsSync\<close> is false, \<open>Corrupt\<close> when
  reading the fields throws (\<open>JSON.parse\<close> fails or yields \<open>null\<close>).
\<close>

datatype state_file = Missing | Corrupt | Json state_json

section \<open>The history-set script (index.js)\<close>

subsection \<open>Strings\<close>

text \<open>\<open>s.includes(sub)\<close>: \<open>sub\<close> occurs in \<open>s\<close> as a contiguous run.\<close>

fun str_includes :: "'a list \<Rightarrow> 'a list \<Rightarrow> bool" where
  "str_includes [] sub = (sub = [])"
| "str_includes (c # cs) sub = (prefix sub (c # cs) \<or> str_includes cs sub)"

text \<open>The marker of the filter, \<open>Abone olmak i\<close>, c with cedilla (code unit 0xE7), \<open>in\<close>.\<close>

definition AD_MARKER :: jsstring where
  "AD_MARKER = [0x41, 0x62, 0x6F, 0x6E, 0x65, 0x20, 0x6F, 0x6C, 0x6D, 0x61, 0x6B, 0x20,
                0x69, 0xE7, 0x69, 0x6E]"

text \<open>Truthiness of a string-or-undefined value: present and not empty.\<close>

fun truthy :: "jsstring option \<Rightarrow> bool" where
  "truthy None = False"
| "truthy (Some s) = (s \<noteq> [])"

subsection \<open>Step 3: load the history\<close>

fun loadHistory :: "state_file \<Rightarrow> jsstring list" where
  "loadHistory Missing = []"
| "loadHistory Corrupt = []"
| "loadHistory (Json state) =
     (case history state of
        Some h \<Rightarrow> h
      | None \<Rightarrow> (case last_link state of
                   Some l \<Rightarrow> (if l \<noteq> [] then [l] else [])
                 | None \<Rightarrow> []))"

subsection \<open>Step 4: filter\<close>

text \<open>
  The predicate of the first \<open>filter\<close>:
  \<open>item.link && item.title && !item.title.includes(AD_MARKER)\<close>.
\<close>

definition keepItem :: "feed_item \<Rightarrow> bool" where
  "keepItem item =
     (truthy (link item) \<and> truthy (title item) \<and>
      (case title item of None \<Rightarrow> False | Some t \<Rightarrow> \<not> str_includes t AD_MARKER))"

definition narrow :: "feed_item \<Rightarrow> valid_item" where
  "narrow item =
     \<lparr> item_title = (case title item of Some t \<Rightarrow> t | None \<Rightarrow> []),
       item_link = (case link item of Some l \<Rightarrow> l | None \<Rightarrow> []),
       item_isoDate = isoDate item,
       item_contentSnippet = contentSnippet item \<rparr>"

definition allValidItems :: "feed_item list \<Rightarrow> valid_item list" where
  "allValidItems items = map narrow (filter keepItem items)"

text \<open>
  The second \<open>filter\<close> and the first-run safety valve. The result is the pair of
  the variables \<open>postedHistory\<close> and \<open>newItems\<close> after line 88.
\<close>

definition selectNewItems :: "jsstring list \<Rightarrow> valid_item list \<Rightarrow> jsstring list \<times> valid_item list" where
  "selectNewItems postedHistory valid =
     (let newItems = filter (\<lambda>item. item_link item \<notin> set postedHistory) valid
      in if length postedHistory = 0 \<and> length newItems > 5
         then (map item_link newItems, [newItems ! 0])
         else (postedHistory, newItems))"

subsection \<open>Step 5: sort by date\<close>

text \<open>
  The comparator \<open>new Date(a.isoDate) - new Date(b.isoDate)\<close>; \<open>None\<close> is NaN.
\<close>

definition compareDates :: "valid_item \<Rightarrow> valid_item \<Rightarrow> int option" where
  "compareDates a b =
     (case item_isoDate a of
        None \<Rightarrow> None
      | Some x \<Rightarrow> (case item_isoDate b of None \<Rightarrow> None | Some y \<Rightarrow> Some (x - y)))"

text \<open>\<open>Array.prototype.sort\<close> reads a NaN from the comparator as 0.\<close>

definition sortCompare :: "valid_item \<Rightarrow> valid_item \<Rightarrow> int" where
  "sortCompare a b = (case compareDates a b of None \<Rightarrow> 0 | Some v \<Rightarrow> v)"

text \<open>Every item of the list has a date.\<close>

definition allDated :: "valid_item list \<Rightarrow> bool" where
  "allDated xs = list_all (\<lambda>i. item_isoDate i \<noteq> None) xs"

text \<open>
  When every item has a date the comparator is consistent, and the language
  fixes what \<open>Array.prototype.sort\<close> returns whatever the engine does: the
  stable ascending sort. It is computed here by insertion; \<open>insertByDate\<close> is
  used on dated items only.
\<close>

fun insertByDate :: "valid_item \<Rightarrow> valid_item list \<Rightarrow> valid_item list" where
  "insertByDate x [] = [x]"
| "insertByDate x (y # ys) =
     (if sortCompare x y \<le> 0 then x # y # ys else y # insertByDate x ys)"

definition sortDated :: "valid_item list \<Rightarrow> valid_item list" where
  "sortDated xs = foldr insertByDate xs []"

text \<open>
  When an item has no date the comparator is not consistent and the order is
  the engine's. The script runs on Node, whose engine sorts an array of fewer
  than 64 elements as one run: it takes the longest run at the start of the
  array (non-descending, or strictly descending and then reversed) and inserts
  each further element at the place a binary search gives.

  \<open>binarySearch pivot a left right\<close> is the loop of the binary insertion:
  \<open>left\<close> and \<open>right\<close> close in on the place of \<open>pivot\<close> in \<open>a\<close>.
\<close>

function binarySearch :: "valid_item \<Rightarrow> valid_item list \<Rightarrow> nat \<Rightarrow> nat \<Rightarrow> nat" where
  "binarySearch pivot a left right =
     (if left < right
      then (let mid = left + (right - left) div 2
            in if sortCompare pivot (a ! mid) < 0
               then binarySearch pivot a left mid
               else binarySearch pivot a (mid + 1) right)
      else left)"
  by pat_completeness auto
termination
  by (relation "measure (\<lambda>(pivot, a, left, right). right - left)") auto

declare binarySearch.simps [simp del]

text \<open>
  \<open>binaryInsertionSort placed rest\<close>: \<open>placed\<close> is the part of the array
  already in order, the elements of \<open>rest\<close> are inserted one by one.
\<close>

fun binaryInsertionSort :: "valid_item list \<Rightarrow> valid_item list \<Rightarrow> valid_item list" where
  "binaryInsertionSort placed [] = placed"
| "binaryInsertionSort placed (pivot # rest) =
     (let left = binarySearch pivot placed 0 (length placed)
      in binaryInsertionSort (take left placed @ [pivot] @ drop left placed) rest)"

text \<open>
  How many of the elements after the second continue the run that the first
  two elements start: each is compared with its predecessor, and the run ends
  at the first element that does not go on descending (\<open>order \<ge> 0\<close>) or not go
  on ascending (\<open>order < 0\<close>).
\<close>

fun runContinues :: "bool \<Rightarrow> valid_item \<Rightarrow> valid_item list \<Rightarrow> nat" where
  "runContinues isDescending previous [] = 0"
| "runContinues isDescending previous (current # following) =
     (let order = sortCompare current previous
      in if (if isDescending then order \<ge> 0 else order < 0) then 0
         else Suc (runContinues isDescending current following))"

text \<open>The run at the start of the array, in ascending order, and what follows it.\<close>

fun countAndMakeRun :: "valid_item list \<Rightarrow> valid_item list \<times> valid_item list" where
  "countAndMakeRun (first # second # following) =
     (let isDescending = sortCompare second first < 0;
          runLength = 2 + runContinues isDescending second following;
          run = take runLength (first # second # following)
      in (if isDescending then rev run else run, drop runLength (first # second # following)))"
| "countAndMakeRun a = (a, [])"

definition sortShort :: "valid_item list \<Rightarrow> valid_item list" where
  "sortShort a = (let (run, rest) = countAndMakeRun a in binaryInsertionSort run rest)"

text \<open>
  An array of 64 elements or more is cut into several runs, which the engine
  merges. With an undated item the result depends on the steps of that merge,
  which are not followed here: the model leaves the order open and only has
  the result be a rearrangement of the array.
\<close>

definition mergedOrder :: "valid_item list \<Rightarrow> valid_item list" where
  "mergedOrder = (SOME f. \<forall>a. mset (f a) = mset a)"

declare mergedOrder_def [code del]

text \<open>\<open>newItems.sort((a, b) => new Date(a.isoDate) - new Date(b.isoDate))\<close>.\<close>

definition sortByDate :: "valid_item list \<Rightarrow> valid_item list" where
  "sortByDate xs =
     (if allDated xs then sortDated xs
      else if length xs < 64 then sortShort xs
      else mergedOrder xs)"

subsection \<open>Step 6: the post loop\<close>

text \<open>\<open>xs.slice(-n)\<close>: the last \<open>n\<close> elements, all of them when there are fewer.\<close>

definition sliceLast :: "nat \<Rightarrow> 'a list \<Rightarrow> 'a list" where
  "sliceLast n xs = drop (length xs - n) xs"

text \<open>Lines 106 to 112: push the link, then keep the last 100.\<close>

definition pushHistory :: "jsstring list \<Rightarrow> jsstring \<Rightarrow> jsstring list" where
  "pushHistory postedHistory l =
     (let h = postedHistory @ [l]
      in if length h > 100 then sliceLast 100 h else h)"

text \<open>What line 115 writes: \<open>{ history: postedHistory }\<close>.\<close>

definition saveState :: "jsstring list \<Rightarrow> state_file" where
  "saveState postedHistory = Json \<lparr> history = Some postedHistory, last_link = None, last_time = None \<rparr>"

text \<open>
  The loop over \<open>newItems\<close>. \<open>ok k\<close> tells whether the \<open>k\<close>-th call of
  \<open>postToBluesky\<close> in this run returned (\<open>True\<close>) or threw (\<open>False\<close>); a throw
  is caught, logged, and the loop goes on. The state is the pair of the
  variable \<open>postedHistory\<close> and the content of the state file.
\<close>

fun postLoop :: "(nat \<Rightarrow> bool) \<Rightarrow> nat \<Rightarrow> valid_item list \<Rightarrow> jsstring list \<times> state_file
                 \<Rightarrow> jsstring list \<times> state_file" where
  "postLoop ok k [] st = st"
| "postLoop ok k (item # rest) (postedHistory, file) =
     (if ok k
      then (let h = pushHistory postedHistory (item_link item)
            in postLoop ok (Suc k) rest (h, saveState h))
      else postLoop ok (Suc k) rest (postedHistory, file))"

subsection \<open>The run\<close>

text \<open>
  The publish plan: \<open>newItems\<close> as the loop receives it (empty when the run
  exits at "No new items found"), and the variable \<open>postedHistory\<close> at that
  point.
\<close>

definition seededHistory :: "feed_item list \<Rightarrow> state_file \<Rightarrow> jsstring list" where
  "seededHistory items file = fst (selectNewItems (loadHistory file) (allValidItems items))"

definition publishPlan :: "feed_item list \<Rightarrow> state_file \<Rightarrow> valid_item list" where
  "publishPlan items file = sortByDate (snd (selectNewItems (loadHistory file) (allValidItems items)))"

text \<open>
  One run of \<open>main\<close> after login and feed download have succeeded: the state
  file it leaves behind.
\<close>

definition main :: "(nat \<Rightarrow> bool) \<Rightarrow> feed_item list \<Rightarrow> state_file \<Rightarrow> state_file" where
  "main ok items file =
     (let postedHistory = seededHistory items file;
          newItems = publishPlan items file
      in if length newItems = 0 then file
         else snd (postLoop ok 0 newItems (postedHistory, file)))"

subsection \<open>The description of a post\<close>

text \<open>Line 130 of \<open>postToBluesky\<close>.\<close>

definition ELLIPSIS :: jsstring where
  "ELLIPSIS = [0x2E, 0x2E, 0x2E]"

definition postDescription :: "valid_item \<Rightarrow> jsstring" where
  "postDescription item =
     (case item_contentSnippet item of
        Some s \<Rightarrow> (if s \<noteq> [] then take 250 s @ ELLIPSIS else [])
      | None \<Rightarrow> [])"

section \<open>The single-link script (earlier variant of the same program)\<close>

text \<open>
  This variant stores \<open>{ last_link }\<close> only and works on the unfiltered
  \<open>feed.items\<close>. \<open>lastPostedLink\<close> starts as the empty string and is
  overwritten by \<open>state.last_link\<close> when the file parses, also when the
  record has no such field (\<open>undefined\<close>, here \<open>None\<close>).
\<close>

fun readLastPostedLink :: "state_file \<Rightarrow> jsstring option" where
  "readLastPostedLink Missing = Some []"
| "readLastPostedLink Corrupt = Some []"
| "readLastPostedLink (Json state) = last_link state"



section \<open>The timestamp script (earlier variant of the same program)\<close>

text \<open>
  Step 4 of this variant: the variable \<open>lastPostedTime\<close> after the state has
  been loaded. \<open>allItems\<close> is the filtered feed, sorted newest first. The
  result \<open>None\<close> is NaN, which \<open>getTime\<close> gives for an item without a date.
\<close>

definition loadLastPostedTime :: "feed_item list \<Rightarrow> state_file \<Rightarrow> int option" where
  "loadLastPostedTime allItems file =
     (case file of
        Missing \<Rightarrow> Some 0
      | Corrupt \<Rightarrow> Some 0
      | Json state \<Rightarrow>
          (case last_time state of
             Some t \<Rightarrow> Some t
           | None \<Rightarrow>
               (if truthy (last_link state)
                then (case find (\<lambda>i. link i = last_link state) allItems of
                        Some foundItem \<Rightarrow> isoDate foundItem
                      | None \<Rightarrow> Some 0)
                else Some 0)))"

section \<open>Notions used in the statements\<close>

text \<open>
  The links of the items whose post succeeded, in the order of the loop, when
  the loop starts at call number \<open>k\<close>.
\<close>

fun publishedLinks :: "(nat \<Rightarrow> bool) \<Rightarrow> nat \<Rightarrow> valid_item list \<Rightarrow> jsstring list" where
  "publishedLinks ok k [] = []"
| "publishedLinks ok k (item # rest) =
     (if ok k then item_link item # publishedLinks ok (Suc k) rest
      else publishedLinks ok (Suc k) rest)"

text \<open>Both items have a date and \<open>b\<close> is not newer than \<open>a\<close>.\<close>

definition newerOrEqual :: "valid_item \<Rightarrow> valid_item \<Rightarrow> bool" where
  "newerOrEqual a b =
     (case item_isoDate a of
        None \<Rightarrow> False
      | Some x \<Rightarrow> (case item_isoDate b of None \<Rightarrow> False | Some y \<Rightarrow> y \<le> x))"

text \<open>No item of the list is newer than a later one: the list is in order of time.\<close>

definition chronological :: "valid_item list \<Rightarrow> bool" where
  "chronological xs = sorted_wrt (\<lambda>a b. newerOrEqual b a) xs"

text \<open>
  The links that a run whose posts all succeed drops from the history: the
  history the loop starts with, followed by the links of the plan, without its
  last 100 links.
\<close>

definition evictedByRun :: "feed_item list \<Rightarrow> state_file \<Rightarrow> jsstring list" where
  "evictedByRun items file =
     (let total = seededHistory items file @ map item_link (publishPlan items file)
      in take (length total - 100) total)"

text \<open>
  The variable \<open>postedHistory\<close> and the state file after the loop has gone
  through the first \<open>n\<close> items, started in state \<open>st\<close>.
\<close>

definition memoryAfter :: "(nat \<Rightarrow> bool) \<Rightarrow> valid_item list \<Rightarrow> jsstring list \<times> state_file \<Rightarrow> nat
                           \<Rightarrow> jsstring list" where
  "memoryAfter ok items st n = fst (postLoop ok 0 (take n items) st)"

definition storedAfter :: "(nat \<Rightarrow> bool) \<Rightarrow> valid_item list \<Rightarrow> jsstring list \<times> state_file \<Rightarrow> nat
                           \<Rightarrow> state_file" where
  "storedAfter ok items st n = snd (postLoop ok 0 (take n items) st)"

section \<open>Example inputs\<close>

text \<open>Story number \<open>i\<close> of a feed that lists its stories newest first.\<close>

definition storyLink :: "nat \<Rightarrow> jsstring" where
  "storyLink i = [0x75, of_nat i]"

definition story :: "nat \<Rightarrow> feed_item" where
  "story i = \<lparr> title = Some [0x4E], link = Some (storyLink i),
                isoDate = Some (1000 - int i), contentSnippet = None \<rparr>"

definition feedOf :: "nat \<Rightarrow> feed_item list" where
  "feedOf n = map story [0..<n]"

text \<open>A story whose RSS item has no publication date.\<close>

definition undatedStory :: feed_item where
  "undatedStory = \<lparr> title = Some [0x4E], link = Some [0x78], isoDate = None,
                     contentSnippet = None \<rparr>"

text \<open>A feed that lists a story, an undated story and an older story.\<close>

definition mixedFeed :: "feed_item list" where
  "mixedFeed = [story 0, undatedStory, story 1]"

text \<open>Outcomes of the posts of a run: all succeed, all but call number 1, none.\<close>

definition allSucceed :: "nat \<Rightarrow> bool" where
  "allSucceed k = True"

definition secondFails :: "nat \<Rightarrow> bool" where
  "secondFails k = (k \<noteq> 1)"

definition noneSucceed :: "nat \<Rightarrow> bool" where
  "noneSucceed k = False"

text \<open>A history whose only link is in no example feed.\<close>

definition staleFile :: state_file where
  "staleFile = saveState [[0x73]]"

text \<open>A full history none of whose links is in an example feed.\<close>

definition settledFile :: state_file where
  "settledFile = saveState (map storyLink [200..<300])"

text \<open>A full history whose oldest link is that of story 1.\<close>

definition fullFile :: state_file where
  "fullFile = saveState (map storyLink [1..<101])"

text \<open>A record of the single-link shape that names story 0 and has no time.\<close>

definition legacyFile :: state_file where
  "legacyFile = Json \<lparr> history = None, last_link = Some (storyLink 0), last_time = None \<rparr>"

text \<open>A summary of three code units.\<close>

definition shortSummary :: valid_item where
  "shortSummary = \<lparr> item_title = [0x4E], item_link = [0x75], item_isoDate = None,
                     item_contentSnippet = Some [0x61, 0x62, 0x63] \<rparr>"

section \<open>Auxiliary facts\<close>

lemma set_insertByDate: "set (insertByDate x ys) = insert x (set ys)"
  by (induction ys) auto

lemma mset_insertByDate: "mset (insertByDate x ys) = add_mset x (mset ys)"
  by (induction ys) auto

lemma mset_sortDated: "mset (sortDated xs) = mset xs"
  by (induction xs) (auto simp: sortDated_def mset_insertByDate)

lemma mset_take_drop: "mset (take k xs) + mset (drop k xs) = mset xs"
proof -
  have "mset (take k xs @ drop k xs) = mset xs"
    by (simp only: append_take_drop_id)
  then show ?thesis by (simp only: mset_append)
qed

lemma mset_insert_at: "mset (take k xs @ [x] @ drop k xs) = add_mset x (mset xs)"
  using mset_take_drop [of k xs] by simp

lemma mset_binaryInsertionSort:
  "mset (binaryInsertionSort placed rest) = mset placed + mset rest"
proof (induction rest arbitrary: placed)
  case Nil
  then show ?case by simp
next
  case (Cons pivot rest)
  show ?case
    by (simp add: Let_def Cons.IH mset_take_drop)
qed

lemma mset_countAndMakeRun:
  assumes r: "countAndMakeRun a = (run, rest)"
  shows "mset run + mset rest = mset a"
proof (cases a)
  case Nil
  with r show ?thesis by simp
next
  case outer: (Cons first others)
  show ?thesis
  proof (cases others)
    case Nil
    with r outer show ?thesis by auto
  next
    case (Cons second following)
    let ?n = "2 + runContinues (sortCompare second first < 0) second following"
    from r outer Cons have "rest = drop ?n a" and "mset run = mset (take ?n a)"
      by (auto simp: Let_def simp del: take_Suc_Cons drop_Suc_Cons split: if_splits)
    then show ?thesis
      using mset_take_drop [of ?n a] by simp
  qed
qed

lemma mset_sortShort: "mset (sortShort a) = mset a"
proof (cases "countAndMakeRun a")
  case (Pair run rest)
  then show ?thesis
    using mset_countAndMakeRun [OF Pair]
    by (simp add: sortShort_def mset_binaryInsertionSort)
qed

lemma mset_mergedOrder: "mset (mergedOrder a) = mset a"
proof -
  have "\<exists>f :: valid_item list \<Rightarrow> valid_item list. \<forall>a. mset (f a) = mset a"
    by (rule exI [of _ "\<lambda>a. a"]) simp
  then have "\<forall>a. mset (mergedOrder a) = mset a"
    unfolding mergedOrder_def by (rule someI_ex)
  then show ?thesis by simp
qed

lemma mset_sortByDate: "mset (sortByDate xs) = mset xs"
  by (simp add: sortByDate_def mset_sortDated mset_sortShort mset_mergedOrder)

lemma set_sortByDate: "set (sortByDate xs) = set xs"
  using mset_sortByDate [of xs] by (rule mset_eq_setD)

lemma length_sortByDate: "length (sortByDate xs) = length xs"
  using mset_sortByDate [of xs] by (rule mset_eq_length)

lemma sortByDate_Nil: "sortByDate [] = []"
  using length_sortByDate [of "[]"] by simp

lemma sortByDate_single: "sortByDate [x] = [x]"
  by (simp add: sortByDate_def sortDated_def sortShort_def)

lemma sortByDate_Nil_iff: "sortByDate xs = [] \<longleftrightarrow> xs = []"
  using length_sortByDate [of xs] by (simp only: length_0_conv [symmetric])

lemma distinct_sortByDate: "distinct (map f (sortByDate xs)) \<longleftrightarrow> distinct (map f xs)"
proof -
  have "mset (map f (sortByDate xs)) = mset (map f xs)"
    by (simp add: mset_sortByDate)
  then show ?thesis by (rule mset_eq_imp_distinct_iff)
qed

lemma sliceLast_short: "length xs \<le> n \<Longrightarrow> sliceLast n xs = xs"
  by (simp add: sliceLast_def)

lemma length_sliceLast: "length (sliceLast n xs) = min n (length xs)"
  by (auto simp: sliceLast_def)

lemma sliceLast_sliceLast_append: "sliceLast n (sliceLast n xs @ ys) = sliceLast n (xs @ ys)"
proof (cases "length xs \<le> n")
  case True
  then show ?thesis by (simp add: sliceLast_def)
next
  case False
  then have "length xs + length ys - n = (length xs - n) + length ys" by simp
  with False show ?thesis by (simp add: sliceLast_def add.commute)
qed

lemma pushHistory_eq: "pushHistory h l = sliceLast 100 (h @ [l])"
  by (simp add: pushHistory_def Let_def sliceLast_def)

lemma foldl_pushHistory: "ls \<noteq> [] \<Longrightarrow> foldl pushHistory h ls = sliceLast 100 (h @ ls)"
proof (induction ls arbitrary: h)
  case Nil
  then show ?case by simp
next
  case (Cons l ls)
  show ?case
  proof (cases "ls = []")
    case True
    then show ?thesis by (simp add: pushHistory_eq [of h l])
  next
    case False
    then have "foldl pushHistory (pushHistory h l) ls = sliceLast 100 (pushHistory h l @ ls)"
      by (rule Cons.IH)
    then show ?thesis
      by (simp add: pushHistory_eq [of h l] sliceLast_sliceLast_append)
  qed
qed

lemma postLoop_fst:
  "fst (postLoop ok k items (h, f)) = foldl pushHistory h (publishedLinks ok k items)"
  by (induction items arbitrary: k h f) (auto simp: Let_def)

lemma postLoop_snd:
  "snd (postLoop ok k items (h, f)) =
     (if publishedLinks ok k items = [] then f
      else saveState (foldl pushHistory h (publishedLinks ok k items)))"
proof (induction items arbitrary: k h f)
  case Nil
  then show ?case by simp
next
  case (Cons item rest)
  show ?case
  proof (cases "ok k")
    case True
    then show ?thesis
      using Cons.IH [of "Suc k" "pushHistory h (item_link item)" "saveState (pushHistory h (item_link item))"]
      by (simp add: Let_def)
  next
    case False
    then show ?thesis using Cons.IH [of "Suc k" h f] by simp
  qed
qed

lemma loadHistory_saveState: "loadHistory (saveState h) = h"
  by (simp add: saveState_def)

lemma str_includes_sublist: "str_includes s sub \<longleftrightarrow> sublist sub s"
  by (induction s) (auto simp: sublist_Cons_right)

lemma keepItem_iff:
  "keepItem item \<longleftrightarrow>
     (\<exists>l t. link item = Some l \<and> l \<noteq> [] \<and> title item = Some t \<and> t \<noteq> [] \<and>
            \<not> sublist AD_MARKER t)"
  by (cases "link item"; cases "title item") (auto simp: keepItem_def str_includes_sublist)

lemma allValidItems_link_nonempty: "v \<in> set (allValidItems items) \<Longrightarrow> item_link v \<noteq> [] \<and> item_title v \<noteq> []"
  by (auto simp: allValidItems_def narrow_def keepItem_iff)

lemma selectNewItems_first_run:
  "5 < length valid \<Longrightarrow> selectNewItems [] valid = (map item_link valid, [valid ! 0])"
  by (simp add: selectNewItems_def)

lemma selectNewItems_no_cap:
  "h \<noteq> [] \<or> length (filter (\<lambda>item. item_link item \<notin> set h) valid) \<le> 5 \<Longrightarrow>
   selectNewItems h valid = (h, filter (\<lambda>item. item_link item \<notin> set h) valid)"
  by (auto simp: selectNewItems_def Let_def)

lemma publishedLinks_all:
  "\<forall>j<length items. ok (k + j) \<Longrightarrow> publishedLinks ok k items = map item_link items"
proof (induction items arbitrary: k)
  case Nil
  then show ?case by simp
next
  case (Cons item rest)
  from Cons.prems have "ok k" by force
  moreover have "\<forall>j<length rest. ok (Suc k + j)"
    using Cons.prems by force
  ultimately show ?case using Cons.IH [of "Suc k"] by simp
qed

lemma publishedLinks_subset: "set (publishedLinks ok k items) \<subseteq> item_link ` set items"
  by (induction items arbitrary: k) auto

lemma length_publishedLinks: "length (publishedLinks ok k items) \<le> length items"
  by (induction items arbitrary: k) (auto simp: le_SucI)

lemma publishedLinks_mem:
  "j < length items \<Longrightarrow> ok (k + j) \<Longrightarrow> item_link (items ! j) \<in> set (publishedLinks ok k items)"
proof (induction items arbitrary: k j)
  case Nil
  then show ?case by simp
next
  case (Cons item rest)
  show ?case
  proof (cases j)
    case 0
    with Cons.prems show ?thesis by simp
  next
    case (Suc j')
    with Cons.prems have "item_link (rest ! j') \<in> set (publishedLinks ok (Suc k) rest)"
      using Cons.IH [of j' "Suc k"] by simp
    with Suc show ?thesis by simp
  qed
qed

lemma publishedLinks_not_mem:
  "distinct (map item_link items) \<Longrightarrow> j < length items \<Longrightarrow> \<not> ok (k + j) \<Longrightarrow>
   item_link (items ! j) \<notin> set (publishedLinks ok k items)"
proof (induction items arbitrary: k j)
  case Nil
  then show ?case by simp
next
  case (Cons item rest)
  have sub: "set (publishedLinks ok (Suc k) rest) \<subseteq> item_link ` set rest"
    by (rule publishedLinks_subset)
  show ?case
  proof (cases j)
    case 0
    with Cons.prems sub show ?thesis by auto
  next
    case (Suc j')
    with Cons.prems have a: "item_link (rest ! j') \<notin> set (publishedLinks ok (Suc k) rest)"
      using Cons.IH [of j' "Suc k"] by simp
    from Suc Cons.prems have m: "rest ! j' \<in> set rest" by simp
    from Cons.prems have "\<forall>x\<in>set rest. item_link item \<noteq> item_link x" by auto
    then have "item_link item \<noteq> item_link (rest ! j')" using m by (rule bspec)
    then have "item_link (rest ! j') \<noteq> item_link item" by (rule not_sym)
    with a Suc show ?thesis by simp
  qed
qed

lemma main_eq:
  "main ok items file =
     (if publishedLinks ok 0 (publishPlan items file) = [] then file
      else saveState (sliceLast 100
             (seededHistory items file @ publishedLinks ok 0 (publishPlan items file))))"
proof (cases "publishPlan items file = []")
  case True
  then show ?thesis by (simp add: main_def)
next
  case False
  then show ?thesis
    by (simp add: main_def Let_def postLoop_snd foldl_pushHistory)
qed

lemma plan_cases:
  "(loadHistory file = [] \<and> 5 < length (allValidItems items) \<and>
    seededHistory items file = map item_link (allValidItems items) \<and>
    publishPlan items file = [allValidItems items ! 0]) \<or>
   (seededHistory items file = loadHistory file \<and>
    publishPlan items file =
      sortByDate (filter (\<lambda>item. item_link item \<notin> set (loadHistory file)) (allValidItems items)))"
  by (auto simp: seededHistory_def publishPlan_def selectNewItems_def Let_def sortByDate_single)

lemma plan_first_run:
  "loadHistory file = [] \<Longrightarrow> 5 < length (allValidItems items) \<Longrightarrow>
   seededHistory items file = map item_link (allValidItems items) \<and>
   publishPlan items file = [allValidItems items ! 0]"
  by (simp add: seededHistory_def publishPlan_def selectNewItems_def sortByDate_single Let_def)

lemma plan_subset_valid: "set (publishPlan items file) \<subseteq> set (allValidItems items)"
proof -
  consider
    (cap) "5 < length (allValidItems items)" "publishPlan items file = [allValidItems items ! 0]"
  | (plain) "publishPlan items file =
      sortByDate (filter (\<lambda>item. item_link item \<notin> set (loadHistory file)) (allValidItems items))"
    using plan_cases [of "file" "items"] by blast
  then show ?thesis
  proof cases
    case cap
    from cap(1) have "allValidItems items ! 0 \<in> set (allValidItems items)"
      by (cases "allValidItems items") auto
    with cap(2) show ?thesis by simp
  next
    case plain
    then show ?thesis by (simp add: set_sortByDate subset_iff)
  qed
qed

lemma plan_covers:
  "v \<in> set (allValidItems items) \<Longrightarrow>
   item_link v \<in> set (seededHistory items file) \<union> item_link ` set (publishPlan items file)"
  using plan_cases [of "file" "items"]
  by (auto simp: set_sortByDate)

lemma plan_empty_of_covered:
  "item_link ` set (allValidItems items) \<subseteq> set (loadHistory file) \<Longrightarrow> publishPlan items file = []"
proof -
  assume a: "item_link ` set (allValidItems items) \<subseteq> set (loadHistory file)"
  then have "filter (\<lambda>item. item_link item \<notin> set (loadHistory file)) (allValidItems items) = []"
    by (auto simp: filter_empty_conv)
  then show ?thesis
    by (simp add: publishPlan_def selectNewItems_def sortByDate_Nil)
qed

lemma sortCompare_dated:
  "item_isoDate a = Some x \<Longrightarrow> item_isoDate b = Some y \<Longrightarrow> sortCompare a b = x - y"
  by (simp add: sortCompare_def compareDates_def)

lemma sorted_insertByDate:
  "allDated (x # ys) \<Longrightarrow> sorted_wrt (\<lambda>a b. newerOrEqual b a) ys \<Longrightarrow>
   sorted_wrt (\<lambda>a b. newerOrEqual b a) (insertByDate x ys)"
proof (induction ys)
  case Nil
  then show ?case by simp
next
  case (Cons y ys)
  from Cons.prems obtain tx ty where d: "item_isoDate x = Some tx" "item_isoDate y = Some ty"
    by (auto simp: allDated_def)
  show ?case
  proof (cases "sortCompare x y \<le> 0")
    case True
    with d have xy: "newerOrEqual y x"
      by (simp add: sortCompare_dated newerOrEqual_def)
    have "\<forall>z\<in>set ys. newerOrEqual z x"
    proof
      fix z assume "z \<in> set ys"
      with Cons.prems have "newerOrEqual z y" by auto
      with xy d show "newerOrEqual z x"
        by (auto simp: newerOrEqual_def split: option.splits)
    qed
    with True xy Cons.prems show ?thesis by simp
  next
    case False
    with d have yx: "newerOrEqual x y"
      by (simp add: sortCompare_dated newerOrEqual_def)
    from Cons.prems have "allDated (x # ys)" "sorted_wrt (\<lambda>a b. newerOrEqual b a) ys"
      by (auto simp: allDated_def)
    then have "sorted_wrt (\<lambda>a b. newerOrEqual b a) (insertByDate x ys)"
      by (rule Cons.IH)
    with False yx Cons.prems show ?thesis
      by (auto simp: set_insertByDate)
  qed
qed

lemma allDated_sortByDate: "allDated (sortByDate xs) = allDated xs"
  by (simp add: allDated_def list_all_iff set_sortByDate)

lemma set_sortDated: "set (sortDated xs) = set xs"
  using mset_sortDated [of xs] by (rule mset_eq_setD)

lemma sortDated_sorted:
  "allDated xs \<Longrightarrow> sorted_wrt (\<lambda>a b. newerOrEqual b a) (sortDated xs)"
proof (induction xs)
  case Nil
  then show ?case by (simp add: sortDated_def)
next
  case (Cons x xs)
  then have "sorted_wrt (\<lambda>a b. newerOrEqual b a) (sortDated xs)"
    by (simp add: allDated_def)
  moreover from Cons.prems have "allDated (x # sortDated xs)"
    by (simp add: allDated_def list_all_iff set_sortDated)
  ultimately have "sorted_wrt (\<lambda>a b. newerOrEqual b a) (insertByDate x (sortDated xs))"
    by (intro sorted_insertByDate)
  then show ?case by (simp add: sortDated_def)
qed

lemma sortByDate_sorted: "allDated xs \<Longrightarrow> chronological (sortByDate xs)"
  by (simp add: chronological_def sortByDate_def sortDated_sorted)

lemma publishPlan_chronological:
  assumes dated: "allDated (publishPlan items file)"
    and i: "i < length (publishPlan items file)"
    and j: "j < length (publishPlan items file)"
    and a: "item_isoDate (publishPlan items file ! i) = Some a"
    and b: "item_isoDate (publishPlan items file ! j) = Some b"
    and less: "a < b"
  shows "i < j"
proof (rule ccontr)
  assume "\<not> i < j"
  then consider "j = i" | "j < i" by linarith
  then show False
  proof cases
    case 1
    with a b less show False by simp
  next
    case 2
    from dated have "sorted_wrt (\<lambda>a b. newerOrEqual b a) (publishPlan items file)"
      unfolding publishPlan_def
      using sortByDate_sorted by (simp add: allDated_sortByDate chronological_def)
    with 2 i have "newerOrEqual (publishPlan items file ! i) (publishPlan items file ! j)"
      by (simp add: sorted_wrt_iff_nth_less)
    with a b less show False by (simp add: newerOrEqual_def)
  qed
qed



lemma set_sliceLast_subset: "set (sliceLast n xs) \<subseteq> set xs"
  by (simp add: sliceLast_def set_drop_subset)

lemma sliceLast_keeps_tail: "length ys \<le> n \<Longrightarrow> set ys \<subseteq> set (sliceLast n (xs @ ys))"
  by (simp add: sliceLast_def)

lemma first_run_main:
  assumes "loadHistory file = []" "5 < length (allValidItems items)"
  shows "main ok items file =
     (if ok 0 then saveState (sliceLast 100
            (map item_link (allValidItems items) @ [item_link (allValidItems items ! 0)]))
      else file)"
  using plan_first_run [OF assms] by (simp add: main_eq)

lemma plan_link_fresh:
  "e \<in> set (publishPlan items file) \<Longrightarrow> item_link e \<notin> set (loadHistory file)"
  using plan_cases [of "file" "items"] by (auto simp: set_sortByDate)

lemma plan_links_distinct:
  assumes "distinct (map item_link (allValidItems items))"
  shows "distinct (map item_link (publishPlan items file))"
proof -
  consider
    (cap) "publishPlan items file = [allValidItems items ! 0]"
  | (plain) "publishPlan items file =
      sortByDate (filter (\<lambda>item. item_link item \<notin> set (loadHistory file)) (allValidItems items))"
    using plan_cases [of "file" "items"] by blast
  then show ?thesis
  proof cases
    case cap
    then show ?thesis by simp
  next
    case plain
    with assms show ?thesis
      by (simp add: distinct_sortByDate distinct_map_filter)
  qed
qed

lemma publishedLinks_take_all:
  "\<forall>k<length items. ok k \<Longrightarrow> publishedLinks ok 0 (take n items) = map item_link (take n items)"
  by (intro publishedLinks_all) simp

lemma memoryAfter_eq:
  assumes "\<forall>k<length items. ok k"
  shows "memoryAfter ok items (h, f) n = foldl pushHistory h (map item_link (take n items))"
  by (simp add: memoryAfter_def postLoop_fst publishedLinks_take_all [OF assms])

lemma storedAfter_eq:
  assumes "\<forall>k<length items. ok k" and "0 < n" and "n \<le> length items"
  shows "storedAfter ok items (h, f) n = saveState (memoryAfter ok items (h, f) n)"
proof -
  from assms(2,3) have "take n items \<noteq> []" by auto
  then show ?thesis
    by (simp add: storedAfter_def memoryAfter_def postLoop_snd postLoop_fst
        publishedLinks_take_all [OF assms(1)])
qed

lemma memoryAfter_sliced:
  assumes "\<forall>k<length items. ok k" and "0 < n" and "n \<le> length items"
  shows "memoryAfter ok items (h, f) n = sliceLast 100 (h @ map item_link (take n items))"
proof -
  from assms(2,3) have "map item_link (take n items) \<noteq> []" by auto
  then have "foldl pushHistory h (map item_link (take n items))
      = sliceLast 100 (h @ map item_link (take n items))"
    by (rule foldl_pushHistory)
  then show ?thesis
    by (simp only: memoryAfter_eq [OF assms(1)])
qed

lemma find_first:
  "\<forall>i\<in>set pre. \<not> P i \<Longrightarrow> P x \<Longrightarrow> find P (pre @ x # post) = Some x"
  by (induction pre) auto

text \<open>
  The sort on an array with an undated story: the descending run of the first
  two stories is reversed, the undated story stays where it is, and the last
  story is inserted where the binary search puts it.
\<close>

lemma sortByDate_undated_example:
  "sortByDate [narrow (story 0), narrow (story 2), narrow undatedStory, narrow (story 1)]
     = [narrow (story 2), narrow (story 1), narrow (story 0), narrow undatedStory]"
  by code_simp

text \<open>
  The entry that the first-run safety valve keeps is the first of the feed: on
  a feed of 6 stories listed oldest first it is the oldest story.
\<close>

lemma first_run_oldest_first_feed:
  "publishPlan (rev (feedOf 6)) Missing = [narrow (story 5)] \<and>
   item_isoDate (narrow (story 5)) = Some 995 \<and>
   item_isoDate (narrow (story 0)) = Some 1000"
  by code_simp

section \<open>The claims\<close>

subsection \<open>Stale state\<close>




subsection \<open>First run\<close>

text \<open>
  Claim C2 as stated fails: on a first run over 101 eligible entries the one
  post succeeds, and the state file written afterwards has lost the link of
  story 1 to the bound of 100.
\<close>

theorem first_run_forgets_beyond_cap:
  "loadHistory Missing = [] \<and>
   length (allValidItems (feedOf 101)) = 101 \<and>
   publishPlan (feedOf 101) Missing = [narrow (story 0)] \<and>
   narrow (story 1) \<in> set (allValidItems (feedOf 101)) \<and>
   item_link (narrow (story 1)) \<notin> set (loadHistory (main allSucceed (feedOf 101) Missing))"
  by code_simp

text \<open>
  Claim C2, amended. With an empty history and more than 5 eligible entries the
  plan has exactly one entry (the first eligible entry of the feed) and the
  variable \<open>postedHistory\<close> is seeded with the link of every eligible entry.
  When the one post succeeds and there are at most 100 eligible entries, the
  state file records exactly the links of the eligible entries; when the post
  fails the state file is left as it was.
\<close>

theorem first_run_cap:
  assumes "loadHistory file = []" and "5 < length (allValidItems items)"
  shows "publishPlan items file = [allValidItems items ! 0] \<and>
         seededHistory items file = map item_link (allValidItems items) \<and>
         (ok 0 \<and> length (allValidItems items) \<le> 100 \<longrightarrow>
            set (loadHistory (main ok items file)) = item_link ` set (allValidItems items)) \<and>
         (\<not> ok 0 \<longrightarrow> main ok items file = file)"
proof -
  from assms(2) obtain x rest where v: "allValidItems items = x # rest"
    by (cases "allValidItems items") auto
  have stored: "set (loadHistory (main ok items file)) = item_link ` set (allValidItems items)"
    if "ok 0" "length (allValidItems items) \<le> 100"
  proof (cases "length rest \<le> 98")
    case True
    then have "sliceLast 100 (map item_link (x # rest) @ [item_link x])
        = map item_link (x # rest) @ [item_link x]"
      by (intro sliceLast_short) simp
    with that(1) show ?thesis
      by (auto simp: first_run_main [OF assms] v loadHistory_saveState)
  next
    case False
    with that(2) have "length rest = 99" by (simp add: v)
    then have "sliceLast 100 (map item_link (x # rest) @ [item_link x])
        = map item_link rest @ [item_link x]"
      by (simp add: sliceLast_def)
    with that(1) show ?thesis
      by (auto simp: first_run_main [OF assms] v loadHistory_saveState)
  qed
  have failed: "main ok items file = file" if "\<not> ok 0"
    using that by (simp add: first_run_main [OF assms])
  from plan_first_run [OF assms] stored failed show ?thesis by blast
qed

text \<open>A first run over 7 stories, once with the post succeeding and once failing.\<close>

theorem first_run_cap_witness:
  "loadHistory Missing = [] \<and>
   length (allValidItems (feedOf 7)) = 7 \<and>
   publishPlan (feedOf 7) Missing = [narrow (story 0)] \<and>
   seededHistory (feedOf 7) Missing = map storyLink [0..<7] \<and>
   set (loadHistory (main allSucceed (feedOf 7) Missing)) = set (map storyLink [0..<7]) \<and>
   main noneSucceed (feedOf 7) Missing = Missing"
proof -
  have a: "loadHistory Missing = []" by simp
  have b: "5 < length (allValidItems (feedOf 7))" by code_simp
  have c: "length (allValidItems (feedOf 7)) = 7" "allValidItems (feedOf 7) ! 0 = narrow (story 0)"
    "map item_link (allValidItems (feedOf 7)) = map storyLink [0..<7]"
    "allSucceed 0 \<and> length (allValidItems (feedOf 7)) \<le> 100"
    "item_link ` set (allValidItems (feedOf 7)) = set (map storyLink [0..<7])"
    "\<not> noneSucceed 0"
    by code_simp+
  note t = first_run_cap [OF a b, of allSucceed]
  from t have "publishPlan (feedOf 7) Missing = [allValidItems (feedOf 7) ! 0]" by blast
  then have p: "publishPlan (feedOf 7) Missing = [narrow (story 0)]"
    using c(2) by (simp only:)
  from t have "seededHistory (feedOf 7) Missing = map item_link (allValidItems (feedOf 7))" by blast
  then have q: "seededHistory (feedOf 7) Missing = map storyLink [0..<7]"
    using c(3) by (simp only:)
  from t c(4) have "set (loadHistory (main allSucceed (feedOf 7) Missing))
      = item_link ` set (allValidItems (feedOf 7))" by blast
  then have u: "set (loadHistory (main allSucceed (feedOf 7) Missing)) = set (map storyLink [0..<7])"
    using c(5) by (simp only:)
  from first_run_cap [OF a b, of noneSucceed] c(6)
  have w: "main noneSucceed (feedOf 7) Missing = Missing" by blast
  from a c(1) p q u w show ?thesis by blast
qed

subsection \<open>Running twice\<close>

text \<open>
  Claim C3 as stated fails: the history is full and its oldest link is that of
  story 1, still in the feed. The first run posts story 0, which evicts that
  link; the second run over the same feed plans story 1 again.
\<close>

theorem second_run_replays_evicted_link:
  "publishPlan (feedOf 2) fullFile = [narrow (story 0)] \<and>
   publishPlan (feedOf 2) (main allSucceed (feedOf 2) fullFile) = [narrow (story 1)]"
  by code_simp

text \<open>
  Claim C3, amended. When every post of the first run succeeds and none of the
  links that the run drops from the history (to keep it at 100 links) is the
  link of an eligible entry of the feed, a second run over the same feed and
  the state file of the first run plans nothing.
\<close>

theorem second_run_plan_empty:
  assumes ok: "\<forall>k<length (publishPlan items file). ok k"
    and kept: "set (evictedByRun items file) \<inter> item_link ` set (allValidItems items) = {}"
  shows "publishPlan items (main ok items file) = []"
proof (cases "publishPlan items file = []")
  case True
  then show ?thesis by (simp add: main_def)
next
  case False
  let ?total = "seededHistory items file @ map item_link (publishPlan items file)"
  from ok have pl: "publishedLinks ok 0 (publishPlan items file) = map item_link (publishPlan items file)"
    by (simp add: publishedLinks_all)
  with False have "main ok items file = saveState (sliceLast 100 ?total)"
    by (simp add: main_eq)
  then have h: "loadHistory (main ok items file) = drop (length ?total - 100) ?total"
    by (simp add: loadHistory_saveState sliceLast_def)
  have "item_link v \<in> set (drop (length ?total - 100) ?total)"
    if v: "v \<in> set (allValidItems items)" for v
  proof -
    from v have "item_link v \<in> set ?total"
      using plan_covers [of v "items" "file"] by auto
    then have "item_link v \<in> set (take (length ?total - 100) ?total @ drop (length ?total - 100) ?total)"
      by (simp only: append_take_drop_id)
    moreover from v kept have "item_link v \<notin> set (take (length ?total - 100) ?total)"
      by (auto simp: evictedByRun_def Let_def)
    ultimately show ?thesis by (simp only: set_append Un_iff) blast
  qed
  with h have "item_link ` set (allValidItems items) \<subseteq> set (loadHistory (main ok items file))"
    by auto
  then show ?thesis by (rule plan_empty_of_covered)
qed

text \<open>
  A full history of links that are not in the feed, and three new stories: the
  run drops three old links, and the second run plans nothing.
\<close>

theorem second_run_plan_empty_witness:
  "length (publishPlan (feedOf 3) settledFile) = 3 \<and>
   allSucceed 0 \<and> allSucceed 1 \<and> allSucceed 2 \<and>
   evictedByRun (feedOf 3) settledFile = map storyLink [200..<203] \<and>
   publishPlan (feedOf 3) (main allSucceed (feedOf 3) settledFile) = []"
proof -
  have a: "\<forall>k<length (publishPlan (feedOf 3) settledFile). allSucceed k"
    by (simp add: allSucceed_def)
  have b: "set (evictedByRun (feedOf 3) settledFile) \<inter> item_link ` set (allValidItems (feedOf 3)) = {}"
    by code_simp
  have c: "length (publishPlan (feedOf 3) settledFile) = 3"
    "evictedByRun (feedOf 3) settledFile = map storyLink [200..<203]"
    by code_simp+
  have d: "allSucceed 0 \<and> allSucceed 1 \<and> allSucceed 2"
    by (simp add: allSucceed_def)
  from c d second_run_plan_empty [OF a b] show ?thesis by blast
qed

subsection \<open>Order of the plan\<close>

text \<open>
  Claim C4. A feed that lists a story dated 1000, an undated story and a story
  dated 999: all three are planned, in this order, so the older story is
  posted after the newer one. When every entry of the plan has a date the plan
  is in chronological order (\<open>publishPlan_chronological\<close>).
\<close>

theorem undated_entry_breaks_order:
  "publishPlan mixedFeed Missing = [narrow (story 0), narrow undatedStory, narrow (story 1)] \<and>
   item_isoDate (narrow (story 0)) = Some 1000 \<and> item_isoDate (narrow (story 1)) = Some 999"
  by code_simp

subsection \<open>Bounded history\<close>

text \<open>
  Claim C5. Let every post of a sequence succeed, from any state of the loop.
  After each post the state file holds the history of the loop, of at most 100
  links. From the 100th post on (so for every sequence of more than 100) it
  holds exactly the links of the last 100 posts, in the order of posting. Each
  post appends its link and drops links from the front only: the new history
  is a suffix of the old one followed by the new link.
\<close>

theorem history_bounded_fifo:
  assumes "\<forall>k<length items. ok k"
  shows "(\<forall>n. 0 < n \<and> n \<le> length items \<longrightarrow>
            storedAfter ok items st n = saveState (memoryAfter ok items st n) \<and>
            length (loadHistory (storedAfter ok items st n)) \<le> 100) \<and>
         (\<forall>n. 100 \<le> n \<and> n \<le> length items \<longrightarrow>
            loadHistory (storedAfter ok items st n) = map item_link (drop (n - 100) (take n items))) \<and>
         (\<forall>n<length items.
            suffix (memoryAfter ok items st (Suc n)) (memoryAfter ok items st n @ [item_link (items ! n)]))"
proof -
  obtain h f where st: "st = (h, f)" by (cases st)
  have bounded: "storedAfter ok items st n = saveState (memoryAfter ok items st n) \<and>
      length (loadHistory (storedAfter ok items st n)) \<le> 100"
    if "0 < n" "n \<le> length items" for n
    using that
    by (simp add: st storedAfter_eq [OF assms] memoryAfter_sliced [OF assms]
        loadHistory_saveState length_sliceLast)
  have recent: "loadHistory (storedAfter ok items st n) = map item_link (drop (n - 100) (take n items))"
    if "100 \<le> n" "n \<le> length items" for n
  proof -
    from that have pos: "0 < n" by simp
    from that have "length h + n - 100 = length h + (n - 100)" by simp
    with that have "sliceLast 100 (h @ map item_link (take n items))
        = map item_link (drop (n - 100) (take n items))"
      by (simp add: sliceLast_def drop_map)
    with pos that(2) show ?thesis
      by (simp add: st storedAfter_eq [OF assms] memoryAfter_sliced [OF assms] loadHistory_saveState)
  qed
  have fifo: "suffix (memoryAfter ok items st (Suc n)) (memoryAfter ok items st n @ [item_link (items ! n)])"
    if "n < length items" for n
  proof -
    from that have "map item_link (take (Suc n) items) = map item_link (take n items) @ [item_link (items ! n)]"
      by (simp add: take_Suc_conv_app_nth)
    then have "memoryAfter ok items st (Suc n)
        = pushHistory (memoryAfter ok items st n) (item_link (items ! n))"
      by (simp add: st memoryAfter_eq [OF assms])
    then show ?thesis
      by (simp add: pushHistory_eq sliceLast_def suffix_drop)
  qed
  from bounded recent fifo show ?thesis by blast
qed

text \<open>A sequence of 101 posts from the empty history.\<close>

theorem history_bounded_fifo_witness:
  "length (allValidItems (feedOf 101)) = 101 \<and>
   length (loadHistory (storedAfter allSucceed (allValidItems (feedOf 101)) ([], Missing) 101)) \<le> 100 \<and>
   loadHistory (storedAfter allSucceed (allValidItems (feedOf 101)) ([], Missing) 101)
     = map storyLink [1..<101] \<and>
   suffix (memoryAfter allSucceed (allValidItems (feedOf 101)) ([], Missing) (Suc 100))
     (memoryAfter allSucceed (allValidItems (feedOf 101)) ([], Missing) 100 @ [storyLink 100])"
proof -
  let ?items = "allValidItems (feedOf 101)"
  have a: "\<forall>k<length ?items. allSucceed k" by (simp add: allSucceed_def)
  have c: "length ?items = 101" by code_simp
  have n1: "0 < (101::nat) \<and> 101 \<le> length ?items" by (simp add: c)
  have n2: "100 \<le> (101::nat) \<and> 101 \<le> length ?items" by (simp add: c)
  have n3: "100 < length ?items" by (simp add: c)
  have d: "map item_link (drop (101 - 100) (take 101 ?items)) = map storyLink [1..<101]"
    "item_link (?items ! 100) = storyLink 100"
    by code_simp+
  note t = history_bounded_fifo [OF a, of "([], Missing)"]
  from t n1 have p: "length (loadHistory (storedAfter allSucceed ?items ([], Missing) 101)) \<le> 100"
    by blast
  from t n2 have "loadHistory (storedAfter allSucceed ?items ([], Missing) 101)
      = map item_link (drop (101 - 100) (take 101 ?items))"
    by blast
  then have q: "loadHistory (storedAfter allSucceed ?items ([], Missing) 101) = map storyLink [1..<101]"
    by (simp only: d)
  from t n3 have "suffix (memoryAfter allSucceed ?items ([], Missing) (Suc 100))
      (memoryAfter allSucceed ?items ([], Missing) 100 @ [item_link (?items ! 100)])"
    by blast
  then have r: "suffix (memoryAfter allSucceed ?items ([], Missing) (Suc 100))
      (memoryAfter allSucceed ?items ([], Missing) 100 @ [storyLink 100])"
    by (simp only: d)
  from c p q r show ?thesis by blast
qed

subsection \<open>A failed post\<close>

text \<open>
  Claim C6 as stated fails: of 102 planned entries all but the second are
  posted; the 101 successes exceed the bound, and the link of the first
  success is no longer in the stored history.
\<close>

theorem early_success_evicted:
  "length (publishPlan (feedOf 102) staleFile) = 102 \<and>
   secondFails 0 \<and>
   item_link (publishPlan (feedOf 102) staleFile ! 0)
     \<notin> set (loadHistory (main secondFails (feedOf 102) staleFile))"
  by code_simp

text \<open>
  Claim C6, amended. Let the eligible entries have pairwise distinct links and
  let at most 100 posts of the run succeed. Then the link of an entry of the
  plan is in the history of the final state file exactly when the post of that
  entry succeeded: a failed post neither stops the loop nor is recorded.
\<close>

theorem partial_failure_isolation:
  assumes links: "distinct (map item_link (allValidItems items))"
    and bound: "length (publishedLinks ok 0 (publishPlan items file)) \<le> 100"
    and k: "k < length (publishPlan items file)"
  shows "item_link (publishPlan items file ! k) \<in> set (loadHistory (main ok items file)) \<longleftrightarrow> ok k"
proof -
  let ?plan = "publishPlan items file"
  let ?P = "publishedLinks ok 0 ?plan"
  let ?l = "item_link (?plan ! k)"
  have fresh: "?l \<notin> set (loadHistory file)"
    using k plan_link_fresh [of "?plan ! k" "items" "file"] by simp
  show ?thesis
  proof (cases "ok k")
    case True
    with k have m: "?l \<in> set ?P"
      using publishedLinks_mem [of k ?plan ok 0] by simp
    then have "?P \<noteq> []" by auto
    then have "loadHistory (main ok items file) = sliceLast 100 (seededHistory items file @ ?P)"
      by (simp add: main_eq loadHistory_saveState)
    moreover from bound have "set ?P \<subseteq> set (sliceLast 100 (seededHistory items file @ ?P))"
      by (rule sliceLast_keeps_tail)
    ultimately show ?thesis using True m by auto
  next
    case False
    from links have "distinct (map item_link ?plan)"
      by (rule plan_links_distinct)
    with k False have n: "?l \<notin> set ?P"
      using publishedLinks_not_mem [of ?plan k ok 0] by simp
    have "?l \<notin> set (loadHistory (main ok items file))"
    proof (cases "?P = []")
      case True
      with fresh show ?thesis by (simp add: main_eq)
    next
      case nonempty: False
      then have h: "loadHistory (main ok items file) = sliceLast 100 (seededHistory items file @ ?P)"
        by (simp add: main_eq loadHistory_saveState)
      have "seededHistory items file = loadHistory file"
      proof (rule ccontr)
        assume "seededHistory items file \<noteq> loadHistory file"
        with plan_cases [of "file" "items"] have "?plan = [allValidItems items ! 0]" by blast
        with k False have "?P = []" by simp
        with nonempty show False by simp
      qed
      with fresh n have "?l \<notin> set (seededHistory items file @ ?P)" by simp
      with h show ?thesis
        using set_sliceLast_subset [of 100 "seededHistory items file @ ?P"] by auto
    qed
    with False show ?thesis by simp
  qed
qed

text \<open>A plan of three stories whose second post fails.\<close>

theorem partial_failure_isolation_witness:
  "length (publishPlan (feedOf 3) Missing) = 3 \<and>
   secondFails 0 \<and> \<not> secondFails 1 \<and> secondFails 2 \<and>
   item_link (publishPlan (feedOf 3) Missing ! 0) \<in> set (loadHistory (main secondFails (feedOf 3) Missing)) \<and>
   item_link (publishPlan (feedOf 3) Missing ! 1) \<notin> set (loadHistory (main secondFails (feedOf 3) Missing)) \<and>
   item_link (publishPlan (feedOf 3) Missing ! 2) \<in> set (loadHistory (main secondFails (feedOf 3) Missing))"
proof -
  have a: "distinct (map item_link (allValidItems (feedOf 3)))" by code_simp
  have b: "length (publishedLinks secondFails 0 (publishPlan (feedOf 3) Missing)) \<le> 100" by code_simp
  have c: "length (publishPlan (feedOf 3) Missing) = 3" by code_simp
  have d: "secondFails 0" "\<not> secondFails 1" "secondFails 2" by (simp_all add: secondFails_def)
  have k: "0 < length (publishPlan (feedOf 3) Missing)" "1 < length (publishPlan (feedOf 3) Missing)"
    "2 < length (publishPlan (feedOf 3) Missing)"
    by (simp_all add: c)
  from partial_failure_isolation [OF a b k(1)] partial_failure_isolation [OF a b k(2)]
    partial_failure_isolation [OF a b k(3)] c d
  show ?thesis by blast
qed

subsection \<open>The filter\<close>

text \<open>
  Claim C7. The filter of \<open>index.js\<close> looks at the link and the title only
  (\<open>keepItem_iff\<close>): an entry that has both and no publication date is kept,
  where the claim has it discarded.
\<close>

theorem undated_entry_passes_filter:
  "isoDate undatedStory = None \<and> allValidItems [undatedStory] = [narrow undatedStory]"
  by (simp add: undatedStory_def allValidItems_def keepItem_def AD_MARKER_def)

subsection \<open>Records of the single-link shape\<close>

text \<open>
  Claim C8 as stated fails on \<open>index.js\<close>: the record names the link of story
  0, which is in the feed with the date 1000, yet the history is the single
  link and story 1, dated 999, is planned; no date is looked up.
\<close>

theorem legacy_link_found_stays_set_mode:
  "story 0 \<in> set (feedOf 2) \<and> link (story 0) = Some (storyLink 0) \<and>
   isoDate (story 0) = Some 1000 \<and>
   loadHistory legacyFile = [storyLink 0] \<and>
   publishPlan (feedOf 2) legacyFile = [narrow (story 1)] \<and>
   item_isoDate (narrow (story 1)) = Some 999"
  by code_simp

text \<open>
  Claim C8, amended. For a record that has a non-empty \<open>last_link\<close> and neither
  a history nor a time, the history-set script takes the single link as its
  history and does not consult the feed. The timestamp script looks the link
  up in its filtered feed: the date of the first entry with that link becomes
  \<open>lastPostedTime\<close>, and when no entry has it \<open>lastPostedTime\<close> stays 0, the
  first-run state; it keeps no set of links.
\<close>

theorem legacy_link_normalization:
  assumes "l \<noteq> []"
  shows "loadHistory (Json \<lparr>history = None, last_link = Some l, last_time = None\<rparr>) = [l] \<and>
     ((\<forall>i\<in>set allItems. link i \<noteq> Some l) \<longrightarrow>
        loadLastPostedTime allItems (Json \<lparr>history = None, last_link = Some l, last_time = None\<rparr>)
          = Some 0) \<and>
     ((\<forall>i\<in>set pre. link i \<noteq> Some l) \<and> link x = Some l \<longrightarrow>
        loadLastPostedTime (pre @ x # post) (Json \<lparr>history = None, last_link = Some l, last_time = None\<rparr>)
          = isoDate x)"
proof -
  have "find (\<lambda>i. link i = Some l) allItems = None" if "\<forall>i\<in>set allItems. link i \<noteq> Some l"
    using that by (simp add: find_None_iff)
  moreover have "find (\<lambda>i. link i = Some l) (pre @ x # post) = Some x"
    if "\<forall>i\<in>set pre. link i \<noteq> Some l" "link x = Some l"
    using that by (intro find_first) auto
  ultimately show ?thesis
    using assms by (auto simp: loadLastPostedTime_def)
qed

text \<open>The record that names story 0, with story 0 in the feed and without.\<close>

theorem legacy_link_normalization_witness:
  "storyLink 0 \<noteq> [] \<and>
   loadHistory legacyFile = [storyLink 0] \<and>
   link (story 0) = Some (storyLink 0) \<and>
   loadLastPostedTime (feedOf 2) legacyFile = Some 1000 \<and>
   loadLastPostedTime [story 1] legacyFile = Some 0"
proof -
  have a: "storyLink 0 \<noteq> []" by (simp add: storyLink_def)
  have b: "\<forall>i\<in>set [story 1]. link i \<noteq> Some (storyLink 0)" by code_simp
  have c: "(\<forall>i\<in>set []. link i \<noteq> Some (storyLink 0)) \<and> link (story 0) = Some (storyLink 0)"
    by code_simp
  have d: "[] @ story 0 # [story 1] = feedOf 2" "isoDate (story 0) = Some 1000"
    by code_simp+
  note t = legacy_link_normalization [OF a, of "[story 1]" "[]" "story 0" "[story 1]"]
  from t have p: "loadHistory legacyFile = [storyLink 0]"
    by (simp only: legacyFile_def)
  from t b have q: "loadLastPostedTime [story 1] legacyFile = Some 0"
    unfolding legacyFile_def by blast
  from t c have "loadLastPostedTime ([] @ story 0 # [story 1]) legacyFile = isoDate (story 0)"
    unfolding legacyFile_def by blast
  then have r: "loadLastPostedTime (feedOf 2) legacyFile = Some 1000"
    by (simp only: d)
  from a p c q r show ?thesis by blast
qed

subsection \<open>Duplicate links in the history\<close>

text \<open>
  Claim C9 as stated fails: on a first run over 100 eligible entries the seeded
  copy of the posted link is evicted by the bound of 100, and the link occurs
  once in the stored history.
\<close>

theorem first_run_link_once_at_cap:
  "loadHistory Missing = [] \<and>
   length (allValidItems (feedOf 100)) = 100 \<and>
   publishPlan (feedOf 100) Missing = [narrow (story 0)] \<and>
   allSucceed 0 \<and>
   count_list (loadHistory (main allSucceed (feedOf 100) Missing)) (item_link (narrow (story 0))) = 1"
  by code_simp

text \<open>
  Claim C9, amended. When the first-run safety valve triggers on at most 99
  eligible entries and the one post succeeds, the stored history is the links
  of all eligible entries followed by the link of the posted entry once more:
  that link occurs at least twice and the history is not duplicate-free.
\<close>

theorem first_run_link_recorded_twice:
  assumes "loadHistory file = []" and "5 < length (allValidItems items)"
    and "length (allValidItems items) \<le> 99" and "ok 0"
  shows "publishPlan items file = [allValidItems items ! 0] \<and>
         loadHistory (main ok items file) =
           map item_link (allValidItems items) @ [item_link (allValidItems items ! 0)] \<and>
         2 \<le> count_list (loadHistory (main ok items file)) (item_link (allValidItems items ! 0)) \<and>
         \<not> distinct (loadHistory (main ok items file))"
proof -
  let ?v = "allValidItems items"
  from assms(3) have "sliceLast 100 (map item_link ?v @ [item_link (?v ! 0)])
      = map item_link ?v @ [item_link (?v ! 0)]"
    by (intro sliceLast_short) simp
  with assms(4) have h: "loadHistory (main ok items file) = map item_link ?v @ [item_link (?v ! 0)]"
    by (simp add: first_run_main [OF assms(1,2)] loadHistory_saveState)
  from assms(2) have "?v ! 0 \<in> set ?v"
    by (cases ?v) auto
  then have m: "item_link (?v ! 0) \<in> set (map item_link ?v)"
    by simp
  then have "count_list (map item_link ?v) (item_link (?v ! 0)) \<noteq> 0"
    by (simp only: count_list_0_iff not_not)
  then have "2 \<le> count_list (map item_link ?v @ [item_link (?v ! 0)]) (item_link (?v ! 0))"
    by simp
  moreover from m have "\<not> distinct (map item_link ?v @ [item_link (?v ! 0)])"
    by simp
  ultimately show ?thesis
    using plan_first_run [OF assms(1,2)] h by simp
qed

text \<open>A first run over 7 stories.\<close>

theorem first_run_link_recorded_twice_witness:
  "length (allValidItems (feedOf 7)) = 7 \<and>
   allSucceed 0 \<and>
   publishPlan (feedOf 7) Missing = [narrow (story 0)] \<and>
   loadHistory (main allSucceed (feedOf 7) Missing) = map storyLink [0..<7] @ [storyLink 0] \<and>
   2 \<le> count_list (loadHistory (main allSucceed (feedOf 7) Missing)) (storyLink 0)"
proof -
  have a: "loadHistory Missing = []" by simp
  have b: "5 < length (allValidItems (feedOf 7))" "length (allValidItems (feedOf 7)) \<le> 99"
    "allSucceed 0"
    by code_simp+
  have c: "length (allValidItems (feedOf 7)) = 7" "allValidItems (feedOf 7) ! 0 = narrow (story 0)"
    "map item_link (allValidItems (feedOf 7)) = map storyLink [0..<7]"
    "item_link (narrow (story 0)) = storyLink 0"
    by code_simp+
  note t = first_run_link_recorded_twice [of Missing "feedOf 7" allSucceed, OF a b]
  from t have "publishPlan (feedOf 7) Missing = [allValidItems (feedOf 7) ! 0]" by blast
  then have p: "publishPlan (feedOf 7) Missing = [narrow (story 0)]"
    using c(2) by (simp only:)
  from t have "loadHistory (main allSucceed (feedOf 7) Missing) =
      map item_link (allValidItems (feedOf 7)) @ [item_link (allValidItems (feedOf 7) ! 0)]" by blast
  then have q: "loadHistory (main allSucceed (feedOf 7) Missing) = map storyLink [0..<7] @ [storyLink 0]"
    using c(2) c(3) c(4) by (simp only:)
  from t have "2 \<le> count_list (loadHistory (main allSucceed (feedOf 7) Missing))
      (item_link (allValidItems (feedOf 7) ! 0))" by blast
  then have r: "2 \<le> count_list (loadHistory (main allSucceed (feedOf 7) Missing)) (storyLink 0)"
    using c(2) c(4) by (simp only:)
  from c(1) b(3) p q r show ?thesis by blast
qed

subsection \<open>The description of a post\<close>

text \<open>
  Claim C10. For an entry with a non-empty summary the description of the post
  is the first 250 code units of the summary followed by the three dots; the
  dots are appended also when the summary has at most 250 code units, so the
  description has \<open>min 250 (length s) + 3\<close> code units, at most 253. An entry
  with no summary, or with an empty one, gets the empty description.
\<close>

theorem description_marker_always_appended:
  "(item_contentSnippet item = Some s \<and> s \<noteq> [] \<longrightarrow>
      postDescription item = take 250 s @ ELLIPSIS \<and>
      length (postDescription item) = min 250 (length s) + 3 \<and>
      (length s \<le> 250 \<longrightarrow> postDescription item = s @ ELLIPSIS)) \<and>
   (item_contentSnippet item = None \<or> item_contentSnippet item = Some [] \<longrightarrow>
      postDescription item = [])"
  by (auto simp: postDescription_def ELLIPSIS_def min_def)

text \<open>A summary of three code units gets the dots as well.\<close>

theorem description_marker_always_appended_witness:
  "item_contentSnippet shortSummary = Some [0x61, 0x62, 0x63] \<and>
   postDescription shortSummary = [0x61, 0x62, 0x63, 0x2E, 0x2E, 0x2E] \<and>
   length (postDescription shortSummary) = 6"
  using description_marker_always_appended [of shortSummary "[0x61, 0x62, 0x63]"]
  by (simp add: shortSummary_def ELLIPSIS_def)

end
